theory Spec2Isabelle
  imports Main "HOL-Library.Word"
begin

section \<open>The heap: items and lists\<close>

text \<open>
  The package has two kinds of heap objects, both handled through pointers:
  \<^verbatim>\<open>Item {ver; val; list *List}\<close> (item.go) and \<^verbatim>\<open>List {tree *btree.BTree; lock}\<close>
  (list.go). Several claims are about which object a pointer denotes (a replaced item
  against its replacement, the owner pointer of an item), so objects live in an explicit
  store and a pointer is an address into it. A non-nil Go pointer is an address below the
  length of its store; a pointer that may be nil is an \<open>option\<close>.

  Versions are \<^verbatim>\<open>int64\<close> in list.go (and \<^verbatim>\<open>uint64\<close> in one revision of item.go). The
  code only compares them (\<open><\<close>, \<open>\<noteq>\<close>) and never computes with them, so they are
  integers here; every 64-bit version, signed or unsigned, is one.
  The lock is not modelled: every method runs from start to end on its own.
\<close>

type_synonym byte = "8 word"

record Item =
  ver :: int
  val :: "byte list"
  lst :: "nat option"   \<comment> \<open>the field \<^verbatim>\<open>list *List\<close>; \<open>None\<close> is nil\<close>

text \<open>
  Modelled from the spec: the type \<^verbatim>\<open>btree.BTree\<close> of the imported package
  github.com/google/btree, which is not among the sources. The spec calls it
  "an ordered collection of Entries, ordered strictly by version ascending": the
  addresses of the stored items, in ascending order of \<^verbatim>\<open>Less\<close>.
\<close>

type_synonym BTree = "nat list"

record BList =
  tree :: BTree

record heap =
  items :: "Item list"
  lists :: "BList list"

definition deref :: "heap \<Rightarrow> nat \<Rightarrow> Item" where
  "deref h a = items h ! a"

definition tree_of :: "heap \<Rightarrow> nat \<Rightarrow> BTree" where
  "tree_of h l = tree (lists h ! l)"

definition set_tree :: "nat \<Rightarrow> BTree \<Rightarrow> heap \<Rightarrow> heap" where
  "set_tree l t h = h\<lparr>lists := (lists h)[l := (lists h ! l)\<lparr>tree := t\<rparr>]\<rparr>"

definition set_lst :: "nat \<Rightarrow> nat option \<Rightarrow> heap \<Rightarrow> heap" where
  "set_lst i p h = h\<lparr>items := (items h)[i := (items h ! i)\<lparr>lst := p\<rparr>]\<rparr>"

definition set_val :: "nat \<Rightarrow> byte list \<Rightarrow> heap \<Rightarrow> heap" where
  "set_val i b h = h\<lparr>items := (items h)[i := (items h ! i)\<lparr>val := b\<rparr>]\<rparr>"

section \<open>item.go: the order on items\<close>

definition Item_Less :: "Item \<Rightarrow> Item \<Rightarrow> bool" where
  "Item_Less i than = (ver i < ver than)"

section \<open>The ordered tree\<close>

text \<open>
  Modelled from the spec: the methods of \<^verbatim>\<open>btree.BTree\<close> that list.go and item.go call
  (package github.com/google/btree, not among the sources), after the package's
  documentation: two items are equal when neither is \<^verbatim>\<open>Less\<close> than the other;
  \<^verbatim>\<open>ReplaceOrInsert\<close> puts an item in its place and removes an equal one;
  \<^verbatim>\<open>Delete\<close> removes the item equal to its argument; \<^verbatim>\<open>Get\<close> returns it;
  the iterations call the iterator on every item of a range, in order, until it returns
  false. The first argument reads an item through its address.

  The iterators of the methods defined below never change the tree they run on.
  \<^verbatim>\<open>Exp\<close> is the one method whose iterator does: it calls \<^verbatim>\<open>Delete\<close> on the tree that
  \<^verbatim>\<open>DescendLessOrEqual\<close> is traversing. Which items such a traversal still reaches, and
  whether it returns at all, depends on how the package stores and rebalances its nodes;
  neither the sources nor the package's interface fix that, and an ordered sequence has
  no node structure. \<^verbatim>\<open>Exp\<close> therefore has no definition in this theory. The only
  change it makes to a list is by calls of \<^verbatim>\<open>Delete\<close>, and each of these keeps a list
  well-formed (lemma \<open>wf_tree_Delete\<close>).
\<close>

definition btree_ReplaceOrInsert :: "(nat \<Rightarrow> Item) \<Rightarrow> nat \<Rightarrow> BTree \<Rightarrow> BTree" where
  "btree_ReplaceOrInsert at i t =
     filter (\<lambda>b. Item_Less (at b) (at i)) t @ [i] @ filter (\<lambda>b. Item_Less (at i) (at b)) t"

definition btree_Delete :: "(nat \<Rightarrow> Item) \<Rightarrow> Item \<Rightarrow> BTree \<Rightarrow> BTree" where
  "btree_Delete at k t = filter (\<lambda>b. Item_Less (at b) k \<or> Item_Less k (at b)) t"

definition btree_Get :: "(nat \<Rightarrow> Item) \<Rightarrow> Item \<Rightarrow> BTree \<Rightarrow> nat option" where
  "btree_Get at k t = List.find (\<lambda>b. \<not> Item_Less (at b) k \<and> \<not> Item_Less k (at b)) t"

definition btree_Len :: "BTree \<Rightarrow> nat" where
  "btree_Len t = length t"

definition btree_Min :: "BTree \<Rightarrow> nat option" where
  "btree_Min t = (case t of [] \<Rightarrow> None | a # _ \<Rightarrow> Some a)"

definition btree_Max :: "BTree \<Rightarrow> nat option" where
  "btree_Max t = (case rev t of [] \<Rightarrow> None | a # _ \<Rightarrow> Some a)"

text \<open>
  An iterator is a closure: it gets the item and the state it captures, and returns
  whether to go on together with the new state.
\<close>

fun iterate :: "(nat \<Rightarrow> 's \<Rightarrow> bool \<times> 's) \<Rightarrow> nat list \<Rightarrow> 's \<Rightarrow> 's" where
  "iterate f [] s = s"
| "iterate f (a # as) s =
     (case f a s of (True, s') \<Rightarrow> iterate f as s' | (False, s') \<Rightarrow> s')"

definition btree_Ascend :: "BTree \<Rightarrow> (nat \<Rightarrow> 's \<Rightarrow> bool \<times> 's) \<Rightarrow> 's \<Rightarrow> 's" where
  "btree_Ascend t f s = iterate f t s"

definition btree_AscendGreaterOrEqual ::
  "(nat \<Rightarrow> Item) \<Rightarrow> BTree \<Rightarrow> Item \<Rightarrow> (nat \<Rightarrow> 's \<Rightarrow> bool \<times> 's) \<Rightarrow> 's \<Rightarrow> 's" where
  "btree_AscendGreaterOrEqual at t pivot f s =
     iterate f (filter (\<lambda>b. \<not> Item_Less (at b) pivot) t) s"

definition btree_DescendLessOrEqual ::
  "(nat \<Rightarrow> Item) \<Rightarrow> BTree \<Rightarrow> Item \<Rightarrow> (nat \<Rightarrow> 's \<Rightarrow> bool \<times> 's) \<Rightarrow> 's \<Rightarrow> 's" where
  "btree_DescendLessOrEqual at t pivot f s =
     iterate f (rev (filter (\<lambda>b. \<not> Item_Less pivot (at b)) t)) s"

section \<open>list.go\<close>

datatype Find = Exact | Prev | Next | Upto | Nearest

text \<open>\<^verbatim>\<open>&Item{ver: ver}\<close>: the other fields have their zero values. It is never stored.\<close>

definition pivot :: "int \<Rightarrow> Item" where
  "pivot v = \<lparr>ver = v, val = [], lst = None\<rparr>"

text \<open>\<^verbatim>\<open>New\<close> allocates a list with an empty tree and returns its address.\<close>

definition New :: "heap \<Rightarrow> nat \<times> heap" where
  "New h = (length (lists h), h\<lparr>lists := lists h @ [\<lparr>tree = []\<rparr>]\<rparr>)"

definition List_Clr :: "nat \<Rightarrow> heap \<Rightarrow> heap" where
  "List_Clr l h = set_tree l [] h"

text \<open>\<^verbatim>\<open>Put\<close> allocates a new item on every call and hands it to the tree.\<close>

definition List_Put :: "nat \<Rightarrow> int \<Rightarrow> byte list \<Rightarrow> heap \<Rightarrow> nat \<times> heap" where
  "List_Put l v b h =
     (let i = length (items h);
          h1 = h\<lparr>items := items h @ [\<lparr>ver = v, val = b, lst = Some l\<rparr>]\<rparr>
      in (i, set_tree l (btree_ReplaceOrInsert (deref h1) i (tree_of h1 l)) h1))"

text \<open>
  \<^verbatim>\<open>find\<close>: the result variable \<open>i\<close> starts as nil and is what the iterators capture.
\<close>

function List_find :: "heap \<Rightarrow> nat \<Rightarrow> int \<Rightarrow> Find \<Rightarrow> nat option" where
  "List_find h l v Prev =
     btree_DescendLessOrEqual (deref h) (tree_of h l) (pivot v)
       (\<lambda>a i. if ver (deref h a) \<noteq> v then (False, Some a) else (True, i)) None"
| "List_find h l v Next =
     btree_AscendGreaterOrEqual (deref h) (tree_of h l) (pivot v)
       (\<lambda>a i. if ver (deref h a) \<noteq> v then (False, Some a) else (True, i)) None"
| "List_find h l v Upto =
     btree_DescendLessOrEqual (deref h) (tree_of h l) (pivot v)
       (\<lambda>a i. (False, Some a)) None"
| "List_find h l v Exact = btree_Get (deref h) (pivot v) (tree_of h l)"
| "List_find h l v Nearest =
     (case List_find h l v Upto of
        None \<Rightarrow> List_find h l v Next
      | Some i \<Rightarrow> Some i)"
  by pat_completeness auto
termination
  by (relation "measure (\<lambda>(h, l, v, what). if what = Nearest then 1 else 0)") auto

definition List_Del :: "nat \<Rightarrow> int \<Rightarrow> Find \<Rightarrow> heap \<Rightarrow> nat option \<times> heap" where
  "List_Del l v meth h =
     (case List_find h l v meth of
        None \<Rightarrow> (None, h)
      | Some i \<Rightarrow>
          (Some i,
           set_lst i None (set_tree l (btree_Delete (deref h) (deref h i) (tree_of h l)) h)))"

definition List_Get :: "heap \<Rightarrow> nat \<Rightarrow> int \<Rightarrow> Find \<Rightarrow> nat option" where
  "List_Get h l v meth = List_find h l v meth"

definition List_Len :: "heap \<Rightarrow> nat \<Rightarrow> nat" where
  "List_Len h l = btree_Len (tree_of h l)"

definition List_Min :: "heap \<Rightarrow> nat \<Rightarrow> nat option" where
  "List_Min h l = btree_Min (tree_of h l)"

definition List_Max :: "heap \<Rightarrow> nat \<Rightarrow> nat option" where
  "List_Max h l = btree_Max (tree_of h l)"

text \<open>
  \<^verbatim>\<open>Walk\<close>: the visitor \<open>fn\<close> is a closure over a state of its own; the iterator handed to
  the tree returns the negation of what \<open>fn\<close> returns.
\<close>

definition List_Walk :: "heap \<Rightarrow> nat \<Rightarrow> (nat \<Rightarrow> 's \<Rightarrow> bool \<times> 's) \<Rightarrow> 's \<Rightarrow> 's" where
  "List_Walk h l fn s =
     btree_Ascend (tree_of h l) (\<lambda>i s. case fn i s of (r, s') \<Rightarrow> (\<not> r, s')) s"

section \<open>item.go: the methods of an item\<close>

definition Item_Ver :: "heap \<Rightarrow> nat \<Rightarrow> int" where
  "Item_Ver h i = ver (deref h i)"

definition Item_Val :: "heap \<Rightarrow> nat \<Rightarrow> byte list" where
  "Item_Val h i = val (deref h i)"

definition Item_Set :: "nat \<Rightarrow> byte list \<Rightarrow> heap \<Rightarrow> nat \<times> heap" where
  "Item_Set i b h = (i, set_val i b h)"

definition Item_Del :: "nat \<Rightarrow> heap \<Rightarrow> nat \<times> heap" where
  "Item_Del i h =
     (case lst (deref h i) of
        Some l \<Rightarrow>
          (i, set_lst i None (set_tree l (btree_Delete (deref h) (deref h i) (tree_of h l)) h))
      | None \<Rightarrow> (i, h))"

definition Item_Prev :: "heap \<Rightarrow> nat \<Rightarrow> nat option" where
  "Item_Prev h i =
     (case lst (deref h i) of
        Some l \<Rightarrow> List_find h l (ver (deref h i)) Prev
      | None \<Rightarrow> None)"

definition Item_Next :: "heap \<Rightarrow> nat \<Rightarrow> nat option" where
  "Item_Next h i =
     (case lst (deref h i) of
        Some l \<Rightarrow> List_find h l (ver (deref h i)) Next
      | None \<Rightarrow> None)"

section \<open>Well-formed lists and the running example\<close>

text \<open>
  The state a list is in between two calls: its pointer is valid, its tree holds valid
  item addresses, each of these items names the list as its owner, and the tree is in
  strictly ascending order of version. \<open>wf\<close> says so of every list of the heap; each
  method defined above keeps it (lemmas \<open>wf_New\<close> to \<open>wf_Item_Set\<close> in the last
  section).
\<close>

definition wf_list :: "heap \<Rightarrow> nat \<Rightarrow> bool" where
  "wf_list h l =
     (l < length (lists h) \<and>
      list_all (\<lambda>a. a < length (items h) \<and> lst (deref h a) = Some l) (tree_of h l) \<and>
      sorted_wrt (\<lambda>a b. ver (deref h a) < ver (deref h b)) (tree_of h l))"

definition wf :: "heap \<Rightarrow> bool" where
  "wf h = list_all (wf_list h) [0..<length (lists h)]"

definition heap_empty :: heap where
  "heap_empty = \<lparr>items = [], lists = []\<rparr>"

text \<open>
  One list (address 0) after \<^verbatim>\<open>Put(20, [2])\<close>, \<^verbatim>\<open>Put(10, [1])\<close>, \<^verbatim>\<open>Put(30, [3])\<close>:
  the items at addresses 0, 1, 2 have the versions 20, 10, 30.
\<close>

definition ex_heap :: heap where
  "ex_heap =
     snd (List_Put 0 30 [3] (snd (List_Put 0 10 [1] (snd (List_Put 0 20 [2]
       (snd (New heap_empty)))))))"

text \<open>One list (address 0) after \<^verbatim>\<open>Put(5, [1])\<close>: the item at address 0.\<close>

definition ex_one :: heap where
  "ex_one = snd (List_Put 0 5 [1] (snd (New heap_empty)))"

text \<open>Two visitors that record the items they are called on; one always returns true,
  the other always false.\<close>

definition visit_true :: "nat \<Rightarrow> nat list \<Rightarrow> bool \<times> nat list" where
  "visit_true a tr = (True, tr @ [a])"

definition visit_false :: "nat \<Rightarrow> nat list \<Rightarrow> bool \<times> nat list" where
  "visit_false a tr = (False, tr @ [a])"

text \<open>
  The traversal as the specification words it: the visitor is called on the entries in
  order, and the traversal stops the first time it returns false.
\<close>

fun Walk_spec :: "(nat \<Rightarrow> 's \<Rightarrow> bool \<times> 's) \<Rightarrow> nat list \<Rightarrow> 's \<Rightarrow> 's" where
  "Walk_spec fn [] s = s"
| "Walk_spec fn (a # as) s =
     (case fn a s of (True, s') \<Rightarrow> Walk_spec fn as s' | (False, s') \<Rightarrow> s')"

text \<open>The same traversal with the other polarity: it stops the first time the visitor
  returns true.\<close>

fun Walk_until :: "(nat \<Rightarrow> 's \<Rightarrow> bool \<times> 's) \<Rightarrow> nat list \<Rightarrow> 's \<Rightarrow> 's" where
  "Walk_until fn [] s = s"
| "Walk_until fn (a # as) s =
     (case fn a s of (True, s') \<Rightarrow> s' | (False, s') \<Rightarrow> Walk_until fn as s')"

text \<open>A sequence of \<^verbatim>\<open>Put\<close> calls on one list, the returned items dropped.\<close>

fun Puts :: "nat \<Rightarrow> (int \<times> byte list) list \<Rightarrow> heap \<Rightarrow> heap" where
  "Puts l [] h = h"
| "Puts l ((v, b) # ps) h = Puts l ps (snd (List_Put l v b h))"

section \<open>The store\<close>

lemma items_set_tree [simp]: "items (set_tree l t h) = items h"
  by (simp add: set_tree_def)

lemma deref_set_tree [simp]: "deref (set_tree l t h) = deref h"
  by (simp add: deref_def fun_eq_iff)

lemma length_lists_set_tree [simp]: "length (lists (set_tree l t h)) = length (lists h)"
  by (simp add: set_tree_def)

lemma tree_of_set_tree [simp]:
  "l < length (lists h) \<Longrightarrow> tree_of (set_tree l t h) l' = (if l' = l then t else tree_of h l')"
  by (simp add: set_tree_def tree_of_def)

lemma set_tree_twice [simp]: "set_tree l t (set_tree l t' h) = set_tree l t h"
  by (cases "l < length (lists h)") (simp_all add: set_tree_def not_less list_update_beyond)

lemma set_tree_same: "l < length (lists h) \<Longrightarrow> set_tree l (tree_of h l) h = h"
  by (simp add: set_tree_def tree_of_def)

lemma lists_set_lst [simp]: "lists (set_lst i p h) = lists h"
  by (simp add: set_lst_def)

lemma tree_of_set_lst [simp]: "tree_of (set_lst i p h) l = tree_of h l"
  by (simp add: tree_of_def)

lemma length_items_set_lst [simp]: "length (items (set_lst i p h)) = length (items h)"
  by (simp add: set_lst_def)

lemma deref_set_lst:
  "i < length (items h) \<Longrightarrow>
     deref (set_lst i p h) a = (if a = i then (deref h i)\<lparr>lst := p\<rparr> else deref h a)"
  by (simp add: set_lst_def deref_def)

lemma ver_set_lst [simp]: "ver (deref (set_lst i p h) a) = ver (deref h a)"
  by (cases "i < length (items h)")
    (simp_all add: set_lst_def deref_def nth_list_update not_less list_update_beyond)

lemma set_lst_beyond: "\<not> i < length (items h) \<Longrightarrow> set_lst i p h = h"
  by (simp add: set_lst_def not_less list_update_beyond)

lemma ex_heap_val:
  "ex_heap =
     \<lparr>items = [\<lparr>ver = 20, val = [2], lst = Some 0\<rparr>, \<lparr>ver = 10, val = [1], lst = Some 0\<rparr>,
               \<lparr>ver = 30, val = [3], lst = Some 0\<rparr>],
      lists = [\<lparr>tree = [1, 0, 2]\<rparr>]\<rparr>"
  by (simp add: ex_heap_def heap_empty_def New_def List_Put_def set_tree_def tree_of_def
      deref_def btree_ReplaceOrInsert_def Item_Less_def)

lemma ex_one_val:
  "ex_one = \<lparr>items = [\<lparr>ver = 5, val = [1], lst = Some 0\<rparr>], lists = [\<lparr>tree = [0]\<rparr>]\<rparr>"
  by (simp add: ex_one_def heap_empty_def New_def List_Put_def set_tree_def tree_of_def
      deref_def btree_ReplaceOrInsert_def Item_Less_def)

lemma wf_list_ex_heap: "wf_list ex_heap 0"
  by (simp add: ex_heap_val wf_list_def tree_of_def deref_def)

lemma wf_list_ex_one: "wf_list ex_one 0"
  by (simp add: ex_one_val wf_list_def tree_of_def deref_def)

section \<open>Iterators\<close>

lemma iterate_find:
  "iterate (\<lambda>a i. if Q a then (False, Some a) else (True, i)) xs i0 =
     (case List.find Q xs of None \<Rightarrow> i0 | Some a \<Rightarrow> Some a)"
  by (induction xs arbitrary: i0) auto

lemma iterate_first:
  "iterate (\<lambda>a i. (False, Some a)) xs None = (case xs of [] \<Rightarrow> None | a # _ \<Rightarrow> Some a)"
  by (cases xs) auto

lemma find_sorted:
  "sorted_wrt R xs \<Longrightarrow> List.find Q xs = Some a \<Longrightarrow>
     a \<in> set xs \<and> Q a \<and> (\<forall>b\<in>set xs. Q b \<longrightarrow> b = a \<or> R a b)"
  by (induction xs) (auto split: if_splits)

lemma find_in_set: "List.find Q xs = Some a \<Longrightarrow> a \<in> set xs"
  by (induction xs) (auto split: if_splits)

lemma first_in_set: "(case ys of [] \<Rightarrow> None | a # _ \<Rightarrow> Some a) = Some a \<Longrightarrow> a \<in> set ys"
  by (cases ys) auto

lemma hd_sorted_best:
  "sorted_wrt R xs \<Longrightarrow> xs = a # ys \<Longrightarrow> \<forall>b\<in>set xs. b = a \<or> R a b"
  by auto

lemma sorted_desc_below:
  "sorted_wrt (\<lambda>a b. k a < k b) t \<Longrightarrow>
     sorted_wrt (\<lambda>a b. k b < k a) (rev (filter P t))"
  by (simp add: sorted_wrt_rev sorted_wrt_filter)

section \<open>The seek algorithm\<close>

text \<open>What each mode of \<^verbatim>\<open>find\<close> computes, as a search in the tree's item sequence.\<close>

lemma find_Prev_eq:
  "List_find h l v Prev =
     List.find (\<lambda>a. ver (deref h a) \<noteq> v)
       (rev (filter (\<lambda>b. ver (deref h b) \<le> v) (tree_of h l)))"
  by (simp add: btree_DescendLessOrEqual_def iterate_find Item_Less_def pivot_def not_less
      split: option.split)

lemma find_Next_eq:
  "List_find h l v Next =
     List.find (\<lambda>a. ver (deref h a) \<noteq> v) (filter (\<lambda>b. v \<le> ver (deref h b)) (tree_of h l))"
  by (simp add: btree_AscendGreaterOrEqual_def iterate_find Item_Less_def pivot_def not_less
      split: option.split)

lemma find_Upto_eq:
  "List_find h l v Upto =
     (case rev (filter (\<lambda>b. ver (deref h b) \<le> v) (tree_of h l)) of
        [] \<Rightarrow> None | a # _ \<Rightarrow> Some a)"
  by (simp add: btree_DescendLessOrEqual_def iterate_first Item_Less_def pivot_def not_less)

lemma find_Exact_eq:
  "List_find h l v Exact = List.find (\<lambda>b. ver (deref h b) = v) (tree_of h l)"
proof -
  have "(\<lambda>b. \<not> ver (deref h b) < v \<and> \<not> v < ver (deref h b)) = (\<lambda>b. ver (deref h b) = v)"
    by auto
  then show ?thesis
    by (simp add: btree_Get_def Item_Less_def pivot_def)
qed

lemma find_Nearest_eq:
  "List_find h l v Nearest =
     (case List_find h l v Upto of None \<Rightarrow> List_find h l v Next | Some i \<Rightarrow> Some i)"
  by simp

declare List_find.simps [simp del]

lemma seek_Exact:
  "case List_find h l v Exact of
     Some a \<Rightarrow> a \<in> set (tree_of h l) \<and> ver (deref h a) = v
   | None \<Rightarrow> \<forall>b\<in>set (tree_of h l). ver (deref h b) \<noteq> v"
  by (auto simp: find_Exact_eq find_None_iff split: option.split dest: find_Some_iff[THEN iffD1])

lemma seek_Prev:
  assumes "wf_list h l"
  shows "case List_find h l v Prev of
           Some a \<Rightarrow> a \<in> set (tree_of h l) \<and> ver (deref h a) < v \<and>
             (\<forall>b\<in>set (tree_of h l). ver (deref h b) < v \<longrightarrow> ver (deref h b) \<le> ver (deref h a))
         | None \<Rightarrow> \<forall>b\<in>set (tree_of h l). \<not> ver (deref h b) < v"
proof (cases "List_find h l v Prev")
  case None
  from None[unfolded find_Prev_eq]
  have "\<forall>b\<in>set (tree_of h l). \<not> ver (deref h b) < v"
    by (force simp: find_None_iff)
  then show ?thesis unfolding None by simp
next
  case (Some a)
  let ?xs = "rev (filter (\<lambda>b. ver (deref h b) \<le> v) (tree_of h l))"
  from assms have "sorted_wrt (\<lambda>a b. ver (deref h b) < ver (deref h a)) ?xs"
    unfolding wf_list_def by (intro sorted_desc_below) simp
  from find_sorted[OF this Some[unfolded find_Prev_eq]]
  have "a \<in> set ?xs" "ver (deref h a) \<noteq> v"
    and "\<forall>b\<in>set ?xs. ver (deref h b) \<noteq> v \<longrightarrow> b = a \<or> ver (deref h b) < ver (deref h a)"
    by auto
  then show ?thesis unfolding Some by force
qed

lemma seek_Next:
  assumes "wf_list h l"
  shows "case List_find h l v Next of
           Some a \<Rightarrow> a \<in> set (tree_of h l) \<and> v < ver (deref h a) \<and>
             (\<forall>b\<in>set (tree_of h l). v < ver (deref h b) \<longrightarrow> ver (deref h a) \<le> ver (deref h b))
         | None \<Rightarrow> \<forall>b\<in>set (tree_of h l). \<not> v < ver (deref h b)"
proof (cases "List_find h l v Next")
  case None
  from None[unfolded find_Next_eq]
  have "\<forall>b\<in>set (tree_of h l). \<not> v < ver (deref h b)"
    by (force simp: find_None_iff)
  then show ?thesis unfolding None by simp
next
  case (Some a)
  let ?xs = "filter (\<lambda>b. v \<le> ver (deref h b)) (tree_of h l)"
  from assms have "sorted_wrt (\<lambda>a b. ver (deref h a) < ver (deref h b)) ?xs"
    unfolding wf_list_def by (simp add: sorted_wrt_filter)
  from find_sorted[OF this Some[unfolded find_Next_eq]]
  have "a \<in> set ?xs" "ver (deref h a) \<noteq> v"
    and "\<forall>b\<in>set ?xs. ver (deref h b) \<noteq> v \<longrightarrow> b = a \<or> ver (deref h a) < ver (deref h b)"
    by auto
  then show ?thesis unfolding Some by force
qed

lemma seek_Upto:
  assumes "wf_list h l"
  shows "case List_find h l v Upto of
           Some a \<Rightarrow> a \<in> set (tree_of h l) \<and> ver (deref h a) \<le> v \<and>
             (\<forall>b\<in>set (tree_of h l). ver (deref h b) \<le> v \<longrightarrow> ver (deref h b) \<le> ver (deref h a))
         | None \<Rightarrow> \<forall>b\<in>set (tree_of h l). \<not> ver (deref h b) \<le> v"
proof -
  let ?xs = "rev (filter (\<lambda>b. ver (deref h b) \<le> v) (tree_of h l))"
  from assms have srt: "sorted_wrt (\<lambda>a b. ver (deref h b) < ver (deref h a)) ?xs"
    unfolding wf_list_def by (intro sorted_desc_below) simp
  show ?thesis
  proof (cases ?xs)
    case Nil
    then have r: "List_find h l v Upto = None" by (simp add: find_Upto_eq)
    from Nil have "\<forall>b\<in>set (tree_of h l). \<not> ver (deref h b) \<le> v"
      by (auto simp: filter_empty_conv)
    then show ?thesis unfolding r by simp
  next
    case (Cons a ys)
    then have r: "List_find h l v Upto = Some a" by (simp add: find_Upto_eq)
    from Cons have "a \<in> set ?xs" by simp
    moreover from hd_sorted_best[OF srt Cons]
    have "\<forall>b\<in>set ?xs. b = a \<or> ver (deref h b) < ver (deref h a)" .
    ultimately show ?thesis unfolding r by force
  qed
qed

lemma find_in_tree: "List_find h l v meth = Some a \<Longrightarrow> a \<in> set (tree_of h l)"
proof -
  assume r: "List_find h l v meth = Some a"
  have up: "List_find h l v Upto = Some a \<Longrightarrow> a \<in> set (tree_of h l)"
  proof -
    assume u: "List_find h l v Upto = Some a"
    from u[unfolded find_Upto_eq]
    have "a \<in> set (rev (filter (\<lambda>b. ver (deref h b) \<le> v) (tree_of h l)))"
      by (rule first_in_set)
    then show ?thesis by simp
  qed
  have nx: "List_find h l v Next = Some a \<Longrightarrow> a \<in> set (tree_of h l)"
    using find_in_set[of _ "filter (\<lambda>b. v \<le> ver (deref h b)) (tree_of h l)" a]
    by (simp add: find_Next_eq)
  have pv: "List_find h l v Prev = Some a \<Longrightarrow> a \<in> set (tree_of h l)"
    using find_in_set[of _ "rev (filter (\<lambda>b. ver (deref h b) \<le> v) (tree_of h l))" a]
    by (simp add: find_Prev_eq)
  have ex: "List_find h l v Exact = Some a \<Longrightarrow> a \<in> set (tree_of h l)"
    using find_in_set[of _ "tree_of h l" a] by (simp add: find_Exact_eq)
  show ?thesis
  proof (cases meth)
    case Nearest
    with r consider "List_find h l v Upto = Some a" | "List_find h l v Next = Some a"
      by (auto simp: find_Nearest_eq split: option.splits)
    then show ?thesis using up nx by cases auto
  qed (use r up nx pv ex in auto)
qed

text \<open>
  C1. Seek correctness of \<^verbatim>\<open>find\<close>, which \<^verbatim>\<open>Get\<close>, \<^verbatim>\<open>Del\<close> and \<^verbatim>\<open>Exp\<close> call: on a
  well-formed list and for every version \<open>v\<close>, mode Exact resolves to the entry whose
  version is \<open>v\<close>, Prev to the entry with the greatest version strictly below \<open>v\<close>,
  Next to the entry with the smallest version strictly above \<open>v\<close>, Upto to the entry
  with the greatest version at most \<open>v\<close>; each mode yields nil exactly when the list
  has no such entry. An entry at version \<open>v\<close> itself is thus excluded for Prev and
  Next and included for Upto and Exact.
\<close>

theorem find_seek_correct:
  assumes "wf_list h l"
  shows
    "(case List_find h l v Exact of
        Some a \<Rightarrow> a \<in> set (tree_of h l) \<and> ver (deref h a) = v
      | None \<Rightarrow> \<forall>b\<in>set (tree_of h l). ver (deref h b) \<noteq> v) \<and>
     (case List_find h l v Prev of
        Some a \<Rightarrow> a \<in> set (tree_of h l) \<and> ver (deref h a) < v \<and>
          (\<forall>b\<in>set (tree_of h l). ver (deref h b) < v \<longrightarrow> ver (deref h b) \<le> ver (deref h a))
      | None \<Rightarrow> \<forall>b\<in>set (tree_of h l). \<not> ver (deref h b) < v) \<and>
     (case List_find h l v Next of
        Some a \<Rightarrow> a \<in> set (tree_of h l) \<and> v < ver (deref h a) \<and>
          (\<forall>b\<in>set (tree_of h l). v < ver (deref h b) \<longrightarrow> ver (deref h a) \<le> ver (deref h b))
      | None \<Rightarrow> \<forall>b\<in>set (tree_of h l). \<not> v < ver (deref h b)) \<and>
     (case List_find h l v Upto of
        Some a \<Rightarrow> a \<in> set (tree_of h l) \<and> ver (deref h a) \<le> v \<and>
          (\<forall>b\<in>set (tree_of h l). ver (deref h b) \<le> v \<longrightarrow> ver (deref h b) \<le> ver (deref h a))
      | None \<Rightarrow> \<forall>b\<in>set (tree_of h l). \<not> ver (deref h b) \<le> v) \<and>
     List_Get h l v = List_find h l v"
proof (intro conjI)
  show "List_Get h l v = List_find h l v"
    by (simp add: fun_eq_iff List_Get_def)
qed (rule seek_Exact seek_Prev[OF assms] seek_Next[OF assms] seek_Upto[OF assms])+

theorem find_seek_correct_witness:
  "wf_list ex_heap 0 \<and>
   List_Get ex_heap 0 20 Exact = Some 0 \<and> List_Get ex_heap 0 15 Exact = None \<and>
   List_Get ex_heap 0 15 Prev = Some 1 \<and> List_Get ex_heap 0 15 Next = Some 0 \<and>
   List_Get ex_heap 0 20 Prev = Some 1 \<and> List_Get ex_heap 0 20 Next = Some 2 \<and>
   List_Get ex_heap 0 20 Upto = Some 0 \<and> List_Get ex_heap 0 10 Prev = None \<and>
   List_Get ex_heap 0 30 Next = None \<and> List_Get ex_heap 0 5 Upto = None"
proof -
  have h: "wf_list ex_heap 0" by (rule wf_list_ex_heap)
  show ?thesis
    using h find_seek_correct[OF h, of 20]
    by (simp add: List_Get_def ex_heap_val find_Exact_eq find_Prev_eq find_Next_eq find_Upto_eq
        tree_of_def deref_def)
qed

lemma Nearest_wf:
  assumes "wf_list h l"
  shows "case List_find h l v Nearest of
      Some a \<Rightarrow> a \<in> set (tree_of h l) \<and>
        (if \<exists>b\<in>set (tree_of h l). ver (deref h b) \<le> v
         then ver (deref h a) \<le> v \<and>
           (\<forall>b\<in>set (tree_of h l). ver (deref h b) \<le> v \<longrightarrow> ver (deref h b) \<le> ver (deref h a))
         else \<forall>b\<in>set (tree_of h l). ver (deref h a) \<le> ver (deref h b))
    | None \<Rightarrow> tree_of h l = []"
proof (cases "List_find h l v Upto")
  case (Some a)
  then have n: "List_find h l v Nearest = Some a" by (simp add: find_Nearest_eq)
  from seek_Upto[OF assms, of v] show ?thesis unfolding Some n by auto
next
  case None
  then have n: "List_find h l v Nearest = List_find h l v Next" by (simp add: find_Nearest_eq)
  from seek_Upto[OF assms, of v] have no: "\<forall>b\<in>set (tree_of h l). \<not> ver (deref h b) \<le> v"
    unfolding None by simp
  show ?thesis
  proof (cases "List_find h l v Next")
    case None
    with seek_Next[OF assms, of v] have "\<forall>b\<in>set (tree_of h l). \<not> v < ver (deref h b)" by simp
    with no have "b \<notin> set (tree_of h l)" for b by (meson not_le)
    then have "tree_of h l = []" by (cases "tree_of h l") auto
    then show ?thesis unfolding n None by simp
  next
    case (Some a)
    from seek_Next[OF assms, of v] no show ?thesis unfolding n Some by force
  qed
qed

text \<open>
  C3. Nearest is composed of Upto and Next: for every list and version, \<^verbatim>\<open>find\<close> with mode
  Nearest returns the result of mode Upto when that is not nil, and the result of mode
  Next otherwise. On a well-formed list it therefore resolves to the entry with the
  greatest version at most \<open>v\<close> whenever such an entry exists (the past neighbour is
  preferred), to the entry with the smallest version otherwise, and to nil only on an
  empty list.
\<close>

theorem Nearest_is_Upto_else_Next:
  "List_find h l v Nearest =
     (case List_find h l v Upto of Some i \<Rightarrow> Some i | None \<Rightarrow> List_find h l v Next) \<and>
   (wf_list h l \<longrightarrow>
     (case List_find h l v Nearest of
        Some a \<Rightarrow> a \<in> set (tree_of h l) \<and>
          (if \<exists>b\<in>set (tree_of h l). ver (deref h b) \<le> v
           then ver (deref h a) \<le> v \<and>
             (\<forall>b\<in>set (tree_of h l). ver (deref h b) \<le> v \<longrightarrow> ver (deref h b) \<le> ver (deref h a))
           else \<forall>b\<in>set (tree_of h l). ver (deref h a) \<le> ver (deref h b))
      | None \<Rightarrow> tree_of h l = []))"
  using Nearest_wf[of h l v] by (simp add: find_Nearest_eq split: option.split)

theorem Nearest_is_Upto_else_Next_witness:
  "wf_list ex_heap 0 \<and> List_find ex_heap 0 25 Nearest = Some 0 \<and>
   List_find ex_heap 0 25 Upto = Some 0 \<and> List_find ex_heap 0 25 Next = Some 2 \<and>
   List_find ex_heap 0 5 Nearest = Some 1 \<and> List_find ex_heap 0 5 Upto = None \<and>
   List_find ex_heap 0 5 Next = Some 1"
  using Nearest_is_Upto_else_Next[of ex_heap 0 25] Nearest_is_Upto_else_Next[of ex_heap 0 5]
    wf_list_ex_heap
  by (simp add: ex_heap_val find_Nearest_eq find_Next_eq find_Upto_eq tree_of_def deref_def)

section \<open>Traversal\<close>

lemma iterate_negated:
  "iterate (\<lambda>i s. case fn i s of (r, s') \<Rightarrow> (\<not> r, s')) t s = Walk_until fn t s"
  by (induction t arbitrary: s) (auto split: prod.splits bool.splits)

lemma Walk_until_trace:
  "Walk_until (\<lambda>a tr. (p a, tr @ [a])) t tr0 =
     tr0 @ takeWhile (\<lambda>a. \<not> p a) t @ take 1 (dropWhile (\<lambda>a. \<not> p a) t)"
  by (induction t arbitrary: tr0) auto

lemma sorted_wrt_walk_prefix:
  "sorted_wrt R t \<Longrightarrow> sorted_wrt R (takeWhile q t @ take 1 (dropWhile q t))"
  by (induction t) (auto dest: set_takeWhileD in_set_takeD set_dropWhileD)

lemma List_Walk_until: "List_Walk h l fn s = Walk_until fn (tree_of h l) s"
  by (simp add: List_Walk_def btree_Ascend_def iterate_negated)

lemma List_Walk_trace:
  "List_Walk h l (\<lambda>a tr. (p a, tr @ [a])) [] =
     takeWhile (\<lambda>a. \<not> p a) (tree_of h l) @ take 1 (dropWhile (\<lambda>a. \<not> p a) (tree_of h l))"
  unfolding List_Walk_until Walk_until_trace by simp

text \<open>
  C4, as the specification states it: \<^verbatim>\<open>Walk\<close> goes on while the visitor returns true and
  stops the first time it returns false. On the example list the visitor that always
  returns true is called on the first entry only.
\<close>

theorem Walk_counterexample:
  "List_Walk ex_heap 0 visit_true [] \<noteq> Walk_spec visit_true (tree_of ex_heap 0) []"
  by (simp add: List_Walk_def btree_Ascend_def ex_heap_val tree_of_def visit_true_def)

text \<open>
  C4, amended: \<^verbatim>\<open>Walk\<close> calls the visitor on the entries in the order of the tree and
  stops the first time the visitor returns true; it goes on for as long as the visitor
  returns false. For a visitor that records its arguments and decides by \<open>p\<close>, the
  entries visited are those before the first entry that satisfies \<open>p\<close>, and that entry.
  On a well-formed list they are in strictly increasing version order and start with
  the minimum.
\<close>

theorem Walk_stops_on_true:
  "List_Walk h l fn s = Walk_until fn (tree_of h l) s \<and>
   List_Walk h l (\<lambda>a tr. (p a, tr @ [a])) [] =
     takeWhile (\<lambda>a. \<not> p a) (tree_of h l) @ take 1 (dropWhile (\<lambda>a. \<not> p a) (tree_of h l)) \<and>
   (wf_list h l \<longrightarrow>
      sorted_wrt (\<lambda>a b. Item_Ver h a < Item_Ver h b) (List_Walk h l (\<lambda>a tr. (p a, tr @ [a])) []) \<and>
      (case List_Min h l of
         None \<Rightarrow> List_Walk h l (\<lambda>a tr. (p a, tr @ [a])) [] = []
       | Some m \<Rightarrow> \<exists>rest. List_Walk h l (\<lambda>a tr. (p a, tr @ [a])) [] = m # rest))"
proof (intro conjI impI)
  show "List_Walk h l fn s = Walk_until fn (tree_of h l) s"
    by (rule List_Walk_until)
  show "List_Walk h l (\<lambda>a tr. (p a, tr @ [a])) [] =
     takeWhile (\<lambda>a. \<not> p a) (tree_of h l) @ take 1 (dropWhile (\<lambda>a. \<not> p a) (tree_of h l))"
    by (rule List_Walk_trace)
  show "sorted_wrt (\<lambda>a b. Item_Ver h a < Item_Ver h b) (List_Walk h l (\<lambda>a tr. (p a, tr @ [a])) [])"
    if "wf_list h l"
    using that unfolding List_Walk_trace wf_list_def Item_Ver_def
    by (intro sorted_wrt_walk_prefix) simp
  show "case List_Min h l of
         None \<Rightarrow> List_Walk h l (\<lambda>a tr. (p a, tr @ [a])) [] = []
       | Some m \<Rightarrow> \<exists>rest. List_Walk h l (\<lambda>a tr. (p a, tr @ [a])) [] = m # rest"
    unfolding List_Walk_trace by (cases "tree_of h l") (auto simp: List_Min_def btree_Min_def)
qed

theorem Walk_stops_on_true_witness:
  "wf_list ex_heap 0 \<and> List_Walk ex_heap 0 visit_true [] = [1] \<and>
   List_Walk ex_heap 0 visit_false [] = [1, 0, 2] \<and> List_Min ex_heap 0 = Some 1"
  using Walk_stops_on_true[of ex_heap 0 visit_true "[]"] Walk_stops_on_true[of ex_heap 0 visit_false "[]"]
    wf_list_ex_heap
  by (simp add: ex_heap_val tree_of_def visit_true_def visit_false_def List_Min_def btree_Min_def)

section \<open>Put\<close>

lemma Put_fst [simp]: "fst (List_Put l v b h) = length (items h)"
  by (simp add: List_Put_def Let_def)

lemma Put_items [simp]:
  "items (snd (List_Put l v b h)) = items h @ [\<lparr>ver = v, val = b, lst = Some l\<rparr>]"
  by (simp add: List_Put_def Let_def)

lemma Put_length_lists [simp]: "length (lists (snd (List_Put l v b h))) = length (lists h)"
  by (simp add: List_Put_def Let_def)

lemma Put_deref_old: "a < length (items h) \<Longrightarrow> deref (snd (List_Put l v b h)) a = deref h a"
  by (simp add: deref_def nth_append)

lemma Put_deref_new:
  "deref (snd (List_Put l v b h)) (length (items h)) = \<lparr>ver = v, val = b, lst = Some l\<rparr>"
  by (simp add: deref_def)

lemma Put_tree_other:
  "l' \<noteq> l \<Longrightarrow> tree_of (snd (List_Put l v b h)) l' = tree_of h l'"
  by (cases "l < length (lists h)")
    (simp_all add: List_Put_def Let_def set_tree_def tree_of_def not_less list_update_beyond)

lemma Put_tree:
  assumes "wf_list h l"
  shows "tree_of (snd (List_Put l v b h)) l =
     filter (\<lambda>a. ver (deref h a) < v) (tree_of h l) @ [length (items h)] @
     filter (\<lambda>a. v < ver (deref h a)) (tree_of h l)"
proof -
  let ?h1 = "h\<lparr>items := items h @ [\<lparr>ver = v, val = b, lst = Some l\<rparr>]\<rparr>"
  from assms have l: "l < length (lists h)"
    and valid: "\<forall>a\<in>set (tree_of h l). a < length (items h)"
    by (auto simp: wf_list_def list_all_iff)
  have t1: "tree_of ?h1 l = tree_of h l" by (simp add: tree_of_def)
  have new: "deref ?h1 (length (items h)) = \<lparr>ver = v, val = b, lst = Some l\<rparr>"
    by (simp add: deref_def)
  have old: "deref ?h1 a = deref h a" if "a \<in> set (tree_of h l)" for a
    using valid that by (simp add: deref_def nth_append)
  have "tree_of (snd (List_Put l v b h)) l =
      btree_ReplaceOrInsert (deref ?h1) (length (items h)) (tree_of h l)"
    using l by (simp add: List_Put_def Let_def t1)
  also have "\<dots> = filter (\<lambda>a. ver (deref h a) < v) (tree_of h l) @ [length (items h)] @
     filter (\<lambda>a. v < ver (deref h a)) (tree_of h l)"
    unfolding btree_ReplaceOrInsert_def Item_Less_def new
    by (simp add: old cong: filter_cong)
  finally show ?thesis .
qed

lemma wf_list_Put:
  assumes "wf_list h l"
  shows "wf_list (snd (List_Put l v b h)) l"
proof -
  let ?h' = "snd (List_Put l v b h)"
  let ?t = "tree_of h l"
  from assms have l: "l < length (lists h)"
    and valid: "\<forall>a\<in>set ?t. a < length (items h) \<and> lst (deref h a) = Some l"
    and srt: "sorted_wrt (\<lambda>a b. ver (deref h a) < ver (deref h b)) ?t"
    by (auto simp: wf_list_def list_all_iff)
  have old: "deref ?h' a = deref h a" if "a \<in> set ?t" for a
    using valid that by (simp add: Put_deref_old)
  have srt': "sorted_wrt (\<lambda>a b. ver (deref ?h' a) < ver (deref ?h' b)) ?t"
    using srt by (rule sorted_wrt_mono_rel[rotated]) (simp add: old)
  have "sorted_wrt (\<lambda>a b. ver (deref ?h' a) < ver (deref ?h' b)) (tree_of ?h' l)"
    unfolding Put_tree[OF assms]
    using srt' by (auto simp: sorted_wrt_append sorted_wrt_filter old Put_deref_new)
  moreover have "\<forall>a\<in>set (tree_of ?h' l). a < length (items ?h') \<and> lst (deref ?h' a) = Some l"
    unfolding Put_tree[OF assms] using valid by (auto simp: old Put_deref_new less_Suc_eq)
  ultimately show ?thesis using l by (simp add: wf_list_def list_all_iff)
qed

lemma find_app:
  "List.find P (xs @ ys) = (case List.find P xs of None \<Rightarrow> List.find P ys | Some a \<Rightarrow> Some a)"
  by (induction xs) auto

lemma replace_in_sorted:
  fixes k :: "nat \<Rightarrow> int"
  shows "sorted_wrt (\<lambda>a b. k a < k b) t \<Longrightarrow> e \<in> set t \<Longrightarrow>
     filter (\<lambda>a. k a < k e) t @ [e'] @ filter (\<lambda>a. k e < k a) t =
     map (\<lambda>x. if x = e then e' else x) t"
proof (induction t)
  case Nil
  then show ?case by simp
next
  case (Cons a t)
  show ?case
  proof (cases "a = e")
    case True
    with Cons.prems have gt: "\<forall>x\<in>set t. k e < k x" by simp
    then have "filter (\<lambda>a. k a < k e) t = []" "filter (\<lambda>a. k e < k a) t = t"
      by (auto simp: filter_empty_conv filter_id_conv)
    moreover from gt have "map (\<lambda>x. if x = e then e' else x) t = t"
      by (intro map_idI) auto
    ultimately show ?thesis using True by simp
  next
    case False
    with Cons.prems have "e \<in> set t" "k a < k e" "sorted_wrt (\<lambda>a b. k a < k b) t" by auto
    with Cons.IH False show ?thesis by simp
  qed
qed

lemma Put_Get:
  assumes "wf_list h l"
  shows "List_find (snd (List_Put l v b h)) l v Exact = Some (length (items h))"
proof -
  let ?h' = "snd (List_Put l v b h)"
  from assms have valid: "\<forall>a\<in>set (tree_of h l). a < length (items h)"
    by (auto simp: wf_list_def list_all_iff)
  have "List.find (\<lambda>a. ver (deref ?h' a) = v)
     (filter (\<lambda>a. ver (deref h a) < v) (tree_of h l)) = None"
    using valid by (auto simp: find_None_iff Put_deref_old)
  then have "List.find (\<lambda>a. ver (deref ?h' a) = v)
     (filter (\<lambda>a. ver (deref h a) < v) (tree_of h l) @ [length (items h)] @
      filter (\<lambda>a. v < ver (deref h a)) (tree_of h l)) = Some (length (items h))"
    by (simp add: find_app Put_deref_new)
  then show ?thesis by (simp add: find_Exact_eq Put_tree[OF assms])
qed

lemma Put_single:
  assumes "wf_list h l"
  shows "filter (\<lambda>a. ver (deref (snd (List_Put l v b h)) a) = v) (tree_of (snd (List_Put l v b h)) l)
    = [length (items h)]"
proof -
  let ?h' = "snd (List_Put l v b h)"
  from assms have valid: "\<forall>a\<in>set (tree_of h l). a < length (items h)"
    by (auto simp: wf_list_def list_all_iff)
  then show ?thesis unfolding Put_tree[OF assms]
    by (auto simp: filter_empty_conv Put_deref_new Put_deref_old)
qed


lemma Put_existing:
  assumes "wf_list h l" "e \<in> set (tree_of h l)" "ver (deref h e) = v"
  shows "tree_of (snd (List_Put l v b h)) l =
     map (\<lambda>x. if x = e then length (items h) else x) (tree_of h l)"
proof -
  from assms(1) have "sorted_wrt (\<lambda>a b. ver (deref h a) < ver (deref h b)) (tree_of h l)"
    by (simp add: wf_list_def)
  from replace_in_sorted[OF this assms(2), of "length (items h)"] show ?thesis
    unfolding Put_tree[OF assms(1)] assms(3) .
qed

lemma wf_list_New: "wf_list (snd (New h)) (fst (New h))"
  by (simp add: New_def wf_list_def tree_of_def)

lemma tree_of_New [simp]: "tree_of (snd (New h)) (fst (New h)) = []"
  by (simp add: New_def tree_of_def)

lemma Puts_wf: "wf_list h l \<Longrightarrow> wf_list (Puts l ps h) l"
  by (induction l ps h rule: Puts.induct) (simp_all add: wf_list_Put)

lemma Put_vers:
  assumes "wf_list h l"
  shows "(\<lambda>a. ver (deref (snd (List_Put l v b h)) a)) ` set (tree_of (snd (List_Put l v b h)) l) =
     insert v ((\<lambda>a. ver (deref h a)) ` set (tree_of h l))"
proof -
  let ?h' = "snd (List_Put l v b h)"
  let ?t = "tree_of h l"
  let ?n = "length (items h)"
  from assms have valid: "\<forall>a\<in>set ?t. a < ?n"
    by (auto simp: wf_list_def list_all_iff)
  have old: "ver (deref ?h' a) = ver (deref h a)" if "a \<in> set ?t" for a
    using valid that by (simp add: Put_deref_old)
  have new: "ver (deref ?h' ?n) = v" by (simp add: Put_deref_new)
  have t': "set (tree_of ?h' l) = insert ?n {a \<in> set ?t. ver (deref h a) \<noteq> v}"
    unfolding Put_tree[OF assms] by auto
  have "(\<lambda>a. ver (deref ?h' a)) ` {a \<in> set ?t. ver (deref h a) \<noteq> v} =
        (\<lambda>a. ver (deref h a)) ` {a \<in> set ?t. ver (deref h a) \<noteq> v}"
    by (rule image_cong) (simp_all add: old)
  then have "(\<lambda>a. ver (deref ?h' a)) ` set (tree_of ?h' l) =
      insert v ((\<lambda>a. ver (deref h a)) ` {a \<in> set ?t. ver (deref h a) \<noteq> v})"
    unfolding t' by (simp add: new)
  also have "\<dots> = insert v ((\<lambda>a. ver (deref h a)) ` set ?t)"
    by auto
  finally show ?thesis .
qed

lemma Puts_vers:
  "wf_list h l \<Longrightarrow>
     (\<lambda>a. ver (deref (Puts l ps h) a)) ` set (tree_of (Puts l ps h) l) =
     (\<lambda>a. ver (deref h a)) ` set (tree_of h l) \<union> fst ` set ps"
  by (induction l ps h rule: Puts.induct) (simp_all add: wf_list_Put Put_vers)

lemma visit_false_eq: "visit_false = (\<lambda>a tr. (False, tr @ [a]))"
  by (simp add: visit_false_def fun_eq_iff)

lemma Walk_all: "List_Walk h l visit_false [] = tree_of h l"
  unfolding visit_false_eq List_Walk_trace
  by (simp add: takeWhile_eq_all_conv[THEN iffD2] dropWhile_eq_Nil_conv[THEN iffD2])

text \<open>
  C5, as the specification states it: \<^verbatim>\<open>Put\<close> on an existing version keeps the same
  entry in the list and gives it the new value. On the list that holds item 0 at version
  5, \<^verbatim>\<open>Put(5, [2])\<close> returns another item, item 0 is no longer in the tree, and its
  value is still the old one.
\<close>

theorem Put_same_entry_counterexample:
  "0 \<in> set (tree_of ex_one 0) \<and> Item_Ver ex_one 0 = 5 \<and>
   fst (List_Put 0 5 [2] ex_one) \<noteq> 0 \<and>
   0 \<notin> set (tree_of (snd (List_Put 0 5 [2] ex_one)) 0) \<and>
   Item_Val (snd (List_Put 0 5 [2] ex_one)) 0 \<noteq> [2]"
  by (simp add: ex_one_val List_Put_def Let_def tree_of_def set_tree_def deref_def Item_Ver_def
      Item_Val_def btree_ReplaceOrInsert_def Item_Less_def)

text \<open>
  C5, amended: when a well-formed list holds an entry \<open>e\<close> at version \<open>v\<close>, \<^verbatim>\<open>Put(v, b)\<close>
  allocates a new entry \<open>e'\<close> with version \<open>v\<close>, value \<open>b\<close> and the list as owner,
  puts it in the tree at the place of \<open>e\<close> and returns it: the tree has no second node
  for \<open>v\<close> and the same length, and a lookup of \<open>v\<close> gives \<open>e'\<close>. The entry \<open>e\<close>
  itself is unchanged (old value, owner still set) and is no longer in the list.
\<close>

theorem Put_replaces_entry:
  assumes "wf_list h l" and "e \<in> set (tree_of h l)" and "Item_Ver h e = v"
    and "List_Put l v b h = (e', h')"
  shows "e' \<noteq> e \<and> e' = length (items h) \<and>
     deref h' e' = \<lparr>ver = v, val = b, lst = Some l\<rparr> \<and>
     tree_of h' l = map (\<lambda>x. if x = e then e' else x) (tree_of h l) \<and>
     e \<notin> set (tree_of h' l) \<and>
     List_Get h' l v Exact = Some e' \<and>
     List_Len h' l = List_Len h l \<and>
     deref h' e = deref h e \<and> wf_list h' l"
proof -
  from assms(4) have e': "e' = length (items h)" and h': "h' = snd (List_Put l v b h)"
    using Put_fst[of l v b h] by auto
  from assms(1,2) have e: "e < length (items h)"
    by (auto simp: wf_list_def list_all_iff)
  have t: "tree_of h' l = map (\<lambda>x. if x = e then e' else x) (tree_of h l)"
    unfolding h' e' using assms(1,2,3) by (intro Put_existing) (simp_all add: Item_Ver_def)
  from e e' have ne: "e' \<noteq> e" by simp
  then have "e \<notin> set (tree_of h' l)" unfolding t by auto
  moreover have "List_Len h' l = List_Len h l"
    by (simp add: List_Len_def btree_Len_def t)
  moreover have "List_Get h' l v Exact = Some e'"
    unfolding h' e' List_Get_def by (rule Put_Get[OF assms(1)])
  moreover have "deref h' e' = \<lparr>ver = v, val = b, lst = Some l\<rparr>"
    unfolding h' e' by (rule Put_deref_new)
  moreover have "deref h' e = deref h e"
    unfolding h' using e by (rule Put_deref_old)
  moreover have "wf_list h' l" unfolding h' by (rule wf_list_Put[OF assms(1)])
  ultimately show ?thesis using ne e' t by simp
qed

theorem Put_replaces_entry_witness:
  "wf_list ex_one 0 \<and> 0 \<in> set (tree_of ex_one 0) \<and> Item_Ver ex_one 0 = 5 \<and>
   tree_of (snd (List_Put 0 5 [2] ex_one)) 0 = [1] \<and>
   deref (snd (List_Put 0 5 [2] ex_one)) 1 = \<lparr>ver = 5, val = [2], lst = Some 0\<rparr> \<and>
   deref (snd (List_Put 0 5 [2] ex_one)) 0 = \<lparr>ver = 5, val = [1], lst = Some 0\<rparr>"
proof -
  have a: "0 \<in> set (tree_of ex_one 0)" and b: "Item_Ver ex_one 0 = 5"
    by (simp_all add: ex_one_val tree_of_def Item_Ver_def deref_def)
  have c: "List_Put 0 5 [2] ex_one = (fst (List_Put 0 5 [2] ex_one), snd (List_Put 0 5 [2] ex_one))"
    by (rule prod.collapse[symmetric])
  from Put_replaces_entry[OF wf_list_ex_one a b c] wf_list_ex_one a b show ?thesis
    by (simp add: ex_one_val tree_of_def deref_def)
qed

text \<open>
  C6. Uniqueness of versions: on a well-formed list, after \<^verbatim>\<open>Put(v, a)\<close> and then
  \<^verbatim>\<open>Put(v, b)\<close>, \<^verbatim>\<open>Get(v, Exact)\<close> returns an entry whose value is \<open>b\<close>, this entry is
  the only one of the list with version \<open>v\<close>, and \<^verbatim>\<open>Len\<close> is the same after the second
  call as before it.
\<close>

theorem Put_twice_unique:
  assumes "wf_list h l" and "List_Put l v a h = (e1, h1)" and "List_Put l v b h1 = (e2, h2)"
  shows "List_Get h2 l v Exact = Some e2 \<and> Item_Val h2 e2 = b \<and>
     filter (\<lambda>x. Item_Ver h2 x = v) (tree_of h2 l) = [e2] \<and>
     List_Len h2 l = List_Len h1 l"
proof -
  from assms(2) have e1: "e1 = length (items h)" and h1: "h1 = snd (List_Put l v a h)"
    using Put_fst[of l v a h] by auto
  from assms(3) have e2: "e2 = length (items h1)" and h2: "h2 = snd (List_Put l v b h1)"
    using Put_fst[of l v b h1] by auto
  have wf1: "wf_list h1 l" unfolding h1 by (rule wf_list_Put[OF assms(1)])
  have in1: "e1 \<in> set (tree_of h1 l)" unfolding h1 e1 Put_tree[OF assms(1)] by simp
  have v1: "ver (deref h1 e1) = v" unfolding h1 e1 by (simp add: Put_deref_new)
  have "List_Get h2 l v Exact = Some e2"
    unfolding h2 e2 List_Get_def by (rule Put_Get[OF wf1])
  moreover have "Item_Val h2 e2 = b"
    unfolding h2 e2 Item_Val_def by (simp add: Put_deref_new)
  moreover have "filter (\<lambda>x. Item_Ver h2 x = v) (tree_of h2 l) = [e2]"
    unfolding h2 e2 Item_Ver_def by (rule Put_single[OF wf1])
  moreover have "List_Len h2 l = List_Len h1 l"
    unfolding h2 List_Len_def btree_Len_def Put_existing[OF wf1 in1 v1] by simp
  ultimately show ?thesis by simp
qed

theorem Put_twice_unique_witness:
  "wf_list ex_heap 0 \<and>
   List_Get (snd (List_Put 0 7 [9] (snd (List_Put 0 7 [8] ex_heap)))) 0 7 Exact = Some 4 \<and>
   Item_Val (snd (List_Put 0 7 [9] (snd (List_Put 0 7 [8] ex_heap)))) 4 = [9] \<and>
   List_Len (snd (List_Put 0 7 [9] (snd (List_Put 0 7 [8] ex_heap)))) 0 = 4 \<and>
   List_Len (snd (List_Put 0 7 [8] ex_heap)) 0 = 4 \<and> List_Len ex_heap 0 = 3"
proof -
  have c1: "List_Put 0 7 [8] ex_heap = (3, snd (List_Put 0 7 [8] ex_heap))"
    by (simp add: prod_eq_iff ex_heap_val)
  have c2: "List_Put 0 7 [9] (snd (List_Put 0 7 [8] ex_heap)) =
      (4, snd (List_Put 0 7 [9] (snd (List_Put 0 7 [8] ex_heap))))"
    by (simp add: prod_eq_iff ex_heap_val)
  have len: "List_Len (snd (List_Put 0 7 [8] ex_heap)) 0 = 4" "List_Len ex_heap 0 = 3"
    by (simp_all add: List_Len_def btree_Len_def Put_tree[OF wf_list_ex_heap])
      (simp_all add: ex_heap_val tree_of_def deref_def)
  from Put_twice_unique[OF wf_list_ex_heap c1 c2] wf_list_ex_heap len show ?thesis
    by simp
qed

text \<open>
  C7. Ordering invariant: after any sequence of \<^verbatim>\<open>Put\<close> calls on a list made by
  \<^verbatim>\<open>New\<close>, a walk that is never stopped visits all entries of the list, in strictly
  increasing version order, so no version occurs twice; the versions visited are those
  that were put. A walk stopped by its visitor (which decides by \<open>p\<close>) visits its
  entries in strictly increasing version order as well.
\<close>

theorem Puts_walk_ascending:
  assumes "New h = (l, h1)" and "Puts l ps h1 = h2"
  shows "sorted_wrt (<) (map (Item_Ver h2) (List_Walk h2 l visit_false [])) \<and>
     distinct (map (Item_Ver h2) (List_Walk h2 l visit_false [])) \<and>
     set (map (Item_Ver h2) (List_Walk h2 l visit_false [])) = fst ` set ps \<and>
     List_Walk h2 l visit_false [] = tree_of h2 l \<and>
     sorted_wrt (<) (map (Item_Ver h2) (List_Walk h2 l (\<lambda>a tr. (p a, tr @ [a])) []))"
proof -
  from assms(1) have l: "l = fst (New h)" and h1: "h1 = snd (New h)" by auto
  have wf1: "wf_list h1 l" unfolding l h1 by (rule wf_list_New)
  have wf2: "wf_list h2 l" unfolding assms(2)[symmetric] by (rule Puts_wf[OF wf1])
  then have srt: "sorted_wrt (<) (map (Item_Ver h2) (tree_of h2 l))"
    by (simp add: wf_list_def sorted_wrt_map Item_Ver_def)
  have "set (map (Item_Ver h2) (tree_of h2 l)) = fst ` set ps"
    using Puts_vers[OF wf1, of ps] unfolding assms(2) Item_Ver_def
    by (simp add: l h1)
  moreover from srt have "distinct (map (Item_Ver h2) (tree_of h2 l))"
    by (simp add: strict_sorted_iff)
  moreover have "sorted_wrt (<) (map (Item_Ver h2) (List_Walk h2 l (\<lambda>a tr. (p a, tr @ [a])) []))"
    unfolding List_Walk_trace sorted_wrt_map
    using srt[unfolded sorted_wrt_map] by (rule sorted_wrt_walk_prefix)
  ultimately show ?thesis using srt by (simp add: Walk_all)
qed

theorem Puts_walk_ascending_witness:
  "map (Item_Ver (Puts 0 [(20, [2]), (10, [1]), (20, [4]), (30, [3])] (snd (New heap_empty))))
     (List_Walk (Puts 0 [(20, [2]), (10, [1]), (20, [4]), (30, [3])] (snd (New heap_empty))) 0
        visit_false []) = [10, 20, 30]"
proof -
  have n: "New heap_empty = (0, snd (New heap_empty))"
    by (simp add: New_def heap_empty_def)
  from Puts_walk_ascending[OF n refl, of "[(20, [2]), (10, [1]), (20, [4]), (30, [3])]"]
  show ?thesis
    by (simp add: New_def heap_empty_def List_Put_def Let_def set_tree_def tree_of_def deref_def
        btree_ReplaceOrInsert_def Item_Less_def Item_Ver_def)
qed

section \<open>Deleting from the tree\<close>

lemma Delete_eq:
  "btree_Delete (deref h) k t = filter (\<lambda>b. ver (deref h b) \<noteq> ver k) t"
  by (simp add: btree_Delete_def Item_Less_def neq_iff)

lemma wf_list_filter:
  assumes "wf_list h l"
  shows "wf_list (set_tree l (filter P (tree_of h l)) h) l"
  using assms by (auto simp: wf_list_def list_all_iff sorted_wrt_filter)

section \<open>Detached and replaced entries\<close>

lemma Item_Del_detached: "lst (deref h i) = None \<Longrightarrow> Item_Del i h = (i, h)"
  by (simp add: Item_Del_def)

lemma Item_Del_detaches:
  "i < length (items h) \<Longrightarrow> lst (deref (snd (Item_Del i h)) i) = None"
  by (cases "lst (deref h i)") (simp_all add: Item_Del_def deref_set_lst)

lemma ex_heap_Item_Del:
  "Item_Del 0 ex_heap =
     (0, \<lparr>items = [\<lparr>ver = 20, val = [2], lst = None\<rparr>, \<lparr>ver = 10, val = [1], lst = Some 0\<rparr>,
                   \<lparr>ver = 30, val = [3], lst = Some 0\<rparr>],
          lists = [\<lparr>tree = [1, 2]\<rparr>]\<rparr>)"
  by (simp add: ex_heap_val Item_Del_def deref_def tree_of_def set_tree_def set_lst_def
      btree_Delete_def Item_Less_def)

lemma ex_one_Put:
  "List_Put 0 5 [2] ex_one =
     (1, \<lparr>items = [\<lparr>ver = 5, val = [1], lst = Some 0\<rparr>, \<lparr>ver = 5, val = [2], lst = Some 0\<rparr>],
          lists = [\<lparr>tree = [1]\<rparr>]\<rparr>)"
  by (simp add: ex_one_val List_Put_def Let_def tree_of_def set_tree_def deref_def
      btree_ReplaceOrInsert_def Item_Less_def)

text \<open>
  C9. Detached entries: for an entry whose owner reference is nil, \<^verbatim>\<open>Del\<close> returns the
  entry and leaves the whole heap (the entry and every list) as it is, and \<^verbatim>\<open>Prev\<close> and
  \<^verbatim>\<open>Next\<close> return nil. \<^verbatim>\<open>Del\<close> on any entry returns that entry and leaves it detached,
  so a second \<^verbatim>\<open>Del\<close> changes nothing.
\<close>

theorem detached_entry_noop:
  "(lst (deref h i) = None \<longrightarrow>
      Item_Del i h = (i, h) \<and> Item_Prev h i = None \<and> Item_Next h i = None) \<and>
   (i < length (items h) \<longrightarrow>
      fst (Item_Del i h) = i \<and>
      Item_Del i (snd (Item_Del i h)) = (i, snd (Item_Del i h)))"
proof (intro conjI impI)
  assume "i < length (items h)"
  then show "Item_Del i (snd (Item_Del i h)) = (i, snd (Item_Del i h))"
    by (intro Item_Del_detached Item_Del_detaches)
  show "fst (Item_Del i h) = i"
    by (simp add: Item_Del_def split: option.split)
qed (simp_all add: Item_Del_def Item_Prev_def Item_Next_def)

theorem detached_entry_noop_witness:
  "lst (deref (snd (Item_Del 0 ex_heap)) 0) = None \<and>
   Item_Del 0 (snd (Item_Del 0 ex_heap)) = (0, snd (Item_Del 0 ex_heap)) \<and>
   Item_Prev (snd (Item_Del 0 ex_heap)) 0 = None \<and>
   Item_Next (snd (Item_Del 0 ex_heap)) 0 = None \<and>
   tree_of (snd (Item_Del 0 ex_heap)) 0 = [1, 2] \<and>
   Item_Prev ex_heap 0 = Some 1 \<and> Item_Next ex_heap 0 = Some 2"
proof -
  have d: "lst (deref (snd (Item_Del 0 ex_heap)) 0) = None"
    by (simp add: ex_heap_Item_Del deref_def)
  have t: "tree_of (snd (Item_Del 0 ex_heap)) 0 = [1, 2]"
    by (simp add: ex_heap_Item_Del tree_of_def)
  have a: "Item_Prev ex_heap 0 = Some 1 \<and> Item_Next ex_heap 0 = Some 2"
    by (simp add: Item_Prev_def Item_Next_def find_Prev_eq find_Next_eq ex_heap_val deref_def
        tree_of_def)
  from detached_entry_noop[of "snd (Item_Del 0 ex_heap)" 0] d t a show ?thesis by blast
qed

text \<open>
  C10. A replaced entry stays attached, and its \<^verbatim>\<open>Del\<close> removes the live entry of its
  version. Let \<open>e1\<close> be an entry of version \<open>v\<close> and value \<open>a\<close> that names a well-formed
  list as its owner (as after \<^verbatim>\<open>Put(v, a)\<close>), and let \<^verbatim>\<open>Put(v, b)\<close> on that list return
  \<open>e2\<close>. Then \<open>e1\<close> is another entry than \<open>e2\<close> and is not in the list, its owner still
  names the list and its value is still \<open>a\<close>, while the list holds \<open>e2\<close> at version
  \<open>v\<close>. \<^verbatim>\<open>Del\<close> on \<open>e1\<close> then removes \<open>e2\<close> from the list, which has no entry at
  version \<open>v\<close> afterwards, and clears the owner of \<open>e1\<close>, not that of \<open>e2\<close>.
\<close>

theorem replaced_entry_Del:
  assumes "wf_list h l" and "e1 < length (items h)"
    and "Item_Ver h e1 = v" and "lst (deref h e1) = Some l" and "Item_Val h e1 = a"
    and "List_Put l v b h = (e2, h2)" and "Item_Del e1 h2 = (r, h3)"
  shows "e2 \<noteq> e1 \<and> e1 \<notin> set (tree_of h2 l) \<and> List_Get h2 l v Exact = Some e2 \<and>
     lst (deref h2 e1) = Some l \<and> Item_Val h2 e1 = a \<and>
     r = e1 \<and> tree_of h3 l = filter (\<lambda>x. x \<noteq> e2) (tree_of h2 l) \<and>
     e2 \<notin> set (tree_of h3 l) \<and> List_Get h3 l v Exact = None \<and>
     lst (deref h3 e1) = None \<and> lst (deref h3 e2) = Some l"
proof -
  let ?t = "tree_of h l"
  from assms(6) have e2: "e2 = length (items h)" and h2: "h2 = snd (List_Put l v b h)"
    using Put_fst[of l v b h] by auto
  from assms(1) have l: "l < length (lists h)"
    and valid: "\<forall>x\<in>set ?t. x < length (items h)"
    by (auto simp: wf_list_def list_all_iff)
  have l2: "l < length (lists h2)" using l by (simp add: h2)
  have ne: "e2 \<noteq> e1" using assms(2) e2 by simp
  have t2: "tree_of h2 l = filter (\<lambda>x. ver (deref h x) < v) ?t @ [e2] @
      filter (\<lambda>x. v < ver (deref h x)) ?t"
    unfolding h2 e2 by (rule Put_tree[OF assms(1)])
  have d1: "deref h2 e1 = deref h e1"
    unfolding h2 using assms(2) by (rule Put_deref_old)
  have d2: "deref h2 e2 = \<lparr>ver = v, val = b, lst = Some l\<rparr>"
    unfolding h2 e2 by (rule Put_deref_new)
  have old: "ver (deref h2 x) = ver (deref h x)" if "x \<in> set ?t" for x
    unfolding h2 using valid that by (simp add: Put_deref_old)
  have notin: "e1 \<notin> set (tree_of h2 l)"
    using ne assms(3) by (auto simp: t2 Item_Ver_def)
  have get2: "List_Get h2 l v Exact = Some e2"
    unfolding h2 e2 List_Get_def by (rule Put_Get[OF assms(1)])
  from assms(4) d1 have own: "lst (deref h2 e1) = Some l" by simp
  from assms(3) d1 have v1: "ver (deref h2 e1) = v" by (simp add: Item_Ver_def)
  let ?t3 = "btree_Delete (deref h2) (deref h2 e1) (tree_of h2 l)"
  from assms(7) own have r: "r = e1" and h3: "h3 = set_lst e1 None (set_tree l ?t3 h2)"
    by (auto simp: Item_Del_def)
  have t3: "tree_of h3 l = filter (\<lambda>x. ver (deref h2 x) \<noteq> v) (tree_of h2 l)"
    using l2 by (simp add: h3 Delete_eq v1)
  have "filter (\<lambda>x. ver (deref h2 x) \<noteq> v) (tree_of h2 l) = filter (\<lambda>x. x \<noteq> e2) (tree_of h2 l)"
  proof (rule filter_cong[OF refl])
    fix x assume "x \<in> set (tree_of h2 l)"
    then consider "x = e2" | "x \<in> set ?t" "ver (deref h x) \<noteq> v"
      by (auto simp: t2)
    then show "(ver (deref h2 x) \<noteq> v) = (x \<noteq> e2)"
    proof cases
      case 1
      then show ?thesis by (simp add: d2)
    next
      case 2
      with valid e2 show ?thesis by (auto simp: old)
    qed
  qed
  with t3 have t3': "tree_of h3 l = filter (\<lambda>x. x \<noteq> e2) (tree_of h2 l)" by simp
  have get3: "List_Get h3 l v Exact = None"
    unfolding List_Get_def find_Exact_eq t3 by (simp add: find_None_iff h3)
  have len: "e1 < length (items (set_tree l ?t3 h2))"
    using assms(2) by (simp add: h2)
  have own3: "lst (deref h3 e1) = None" "lst (deref h3 e2) = Some l"
    using ne by (simp_all add: h3 deref_set_lst[OF len] d2)
  from assms(5) d1 have "Item_Val h2 e1 = a" by (simp add: Item_Val_def)
  with ne notin get2 own r t3' get3 own3 show ?thesis by simp
qed

theorem replaced_entry_Del_witness:
  "wf_list ex_one 0 \<and> fst (List_Put 0 5 [1] (snd (New heap_empty))) = 0 \<and>
   snd (List_Put 0 5 [1] (snd (New heap_empty))) = ex_one \<and>
   fst (List_Put 0 5 [2] ex_one) = 1 \<and>
   tree_of (snd (List_Put 0 5 [2] ex_one)) 0 = [1] \<and>
   Item_Val (snd (List_Put 0 5 [2] ex_one)) 0 = [1] \<and>
   lst (deref (snd (List_Put 0 5 [2] ex_one)) 0) = Some 0 \<and>
   tree_of (snd (Item_Del 0 (snd (List_Put 0 5 [2] ex_one)))) 0 = [] \<and>
   List_Get (snd (Item_Del 0 (snd (List_Put 0 5 [2] ex_one)))) 0 5 Exact = None"
proof -
  let ?h2 = "snd (List_Put 0 5 [2] ex_one)"
  have p: "List_Put 0 5 [2] ex_one = (1, ?h2)" by (simp add: ex_one_Put)
  have d: "Item_Del 0 ?h2 = (0, snd (Item_Del 0 ?h2))"
    by (simp add: ex_one_Put Item_Del_def deref_def)
  have pre: "0 < length (items ex_one)" "Item_Ver ex_one 0 = 5" "lst (deref ex_one 0) = Some 0"
    "Item_Val ex_one 0 = [1]"
    by (simp_all add: ex_one_val Item_Ver_def Item_Val_def deref_def)
  have c: "fst (List_Put 0 5 [1] (snd (New heap_empty))) = 0 \<and>
     snd (List_Put 0 5 [1] (snd (New heap_empty))) = ex_one \<and>
     fst (List_Put 0 5 [2] ex_one) = 1 \<and>
     tree_of ?h2 0 = [1] \<and> Item_Val ?h2 0 = [1] \<and> lst (deref ?h2 0) = Some 0 \<and>
     tree_of (snd (Item_Del 0 ?h2)) 0 = []"
    by (simp add: ex_one_Put tree_of_def Item_Val_def deref_def Item_Del_def set_lst_def
        set_tree_def btree_Delete_def Item_Less_def)
      (simp add: ex_one_def New_def heap_empty_def)
  from replaced_entry_Del[OF wf_list_ex_one pre p d] wf_list_ex_one c show ?thesis by blast
qed

section \<open>The invariant\<close>

text \<open>
  Every method defined above keeps every list of the heap well-formed, on valid list
  pointers, and the empty heap is well-formed. \<^verbatim>\<open>Exp\<close>, which has no definition here,
  changes a list only by calls of the tree's \<^verbatim>\<open>Delete\<close>, and writes no item; each such
  call keeps the heap well-formed too (\<open>wf_tree_Delete\<close>). So the lists that the
  theorems above speak of are all the lists a program can build.
\<close>

lemma wf_iff: "wf h \<longleftrightarrow> (\<forall>l<length (lists h). wf_list h l)"
  by (auto simp: wf_def list_all_iff)

lemma wf_list_sub:
  assumes "wf_list h l" and "l < length (lists h')"
    and "tree_of h' l = filter P (tree_of h l)"
    and "length (items h) \<le> length (items h')"
    and "\<forall>a\<in>set (tree_of h' l). deref h' a = deref h a"
  shows "wf_list h' l"
proof -
  from assms(1) have valid: "\<forall>a\<in>set (tree_of h l). a < length (items h) \<and> lst (deref h a) = Some l"
    and srt: "sorted_wrt (\<lambda>a b. ver (deref h a) < ver (deref h b)) (tree_of h l)"
    by (auto simp: wf_list_def list_all_iff)
  from srt have "sorted_wrt (\<lambda>a b. ver (deref h a) < ver (deref h b)) (tree_of h' l)"
    unfolding assms(3) by (rule sorted_wrt_filter)
  then have "sorted_wrt (\<lambda>a b. ver (deref h' a) < ver (deref h' b)) (tree_of h' l)"
    by (rule sorted_wrt_mono_rel[rotated]) (simp add: assms(5))
  moreover have "\<forall>a\<in>set (tree_of h' l). a < length (items h') \<and> lst (deref h' a) = Some l"
    using valid assms(4,5) by (auto simp: assms(3))
  ultimately show ?thesis using assms(2) by (simp add: wf_list_def list_all_iff)
qed

lemma wf_list_same:
  assumes "wf_list h l" and "l < length (lists h')"
    and "tree_of h' l = tree_of h l"
    and "length (items h) \<le> length (items h')"
    and "\<forall>a\<in>set (tree_of h l). deref h' a = deref h a"
  shows "wf_list h' l"
  using wf_list_sub[OF assms(1,2), of "\<lambda>_. True"] assms(3,4,5) by simp

lemma wf_New: "wf h \<Longrightarrow> wf (snd (New h))"
  unfolding wf_iff
proof (intro allI impI)
  fix l assume w: "\<forall>l<length (lists h). wf_list h l" and l: "l < length (lists (snd (New h)))"
  show "wf_list (snd (New h)) l"
  proof (cases "l < length (lists h)")
    case True
    with w have wl: "wf_list h l" by simp
    have "tree_of (snd (New h)) l = tree_of h l"
      using True by (simp add: New_def tree_of_def nth_append)
    moreover have "deref (snd (New h)) a = deref h a" for a
      by (simp add: New_def deref_def)
    moreover have "length (items h) \<le> length (items (snd (New h)))"
      by (simp add: New_def)
    ultimately show ?thesis using l by (intro wf_list_same[OF wl]) simp_all
  next
    case False
    with l have "l = fst (New h)" by (simp add: New_def)
    then show ?thesis by (simp add: wf_list_New)
  qed
qed

lemma set_tree_beyond: "\<not> l < length (lists h) \<Longrightarrow> set_tree l t h = h"
  by (simp add: set_tree_def not_less list_update_beyond)

lemma wf_set_tree_filter:
  assumes "wf h"
  shows "wf (set_tree l (filter P (tree_of h l)) h)"
proof (cases "l < length (lists h)")
  case False
  with assms show ?thesis by (simp add: set_tree_beyond)
next
  case True
  show ?thesis
    unfolding wf_iff
  proof (intro allI impI)
    fix l' assume "l' < length (lists (set_tree l (filter P (tree_of h l)) h))"
    then have l'h: "l' < length (lists h)" by simp
    with assms have wl': "wf_list h l'" by (simp add: wf_iff)
    show "wf_list (set_tree l (filter P (tree_of h l)) h) l'"
    proof (cases "l' = l")
      case True
      with wl' show ?thesis by (simp add: wf_list_filter)
    next
      case False
      have "tree_of (set_tree l (filter P (tree_of h l)) h) l' = tree_of h l'"
        using \<open>l < length (lists h)\<close> False by simp
      then show ?thesis using l'h by (intro wf_list_same[OF wl']) simp_all
    qed
  qed
qed

lemma wf_Clr: "wf h \<Longrightarrow> wf (List_Clr l h)"
  using wf_set_tree_filter[of h l "\<lambda>_. False"] by (simp add: List_Clr_def)

lemma wf_Put: "wf h \<Longrightarrow> l < length (lists h) \<Longrightarrow> wf (snd (List_Put l v b h))"
  unfolding wf_iff
proof (intro allI impI)
  fix l' assume w: "\<forall>l<length (lists h). wf_list h l" and l: "l < length (lists h)"
    and "l' < length (lists (snd (List_Put l v b h)))"
  then have l'h: "l' < length (lists h)" and wl': "wf_list h l'" by simp_all
  show "wf_list (snd (List_Put l v b h)) l'"
  proof (cases "l' = l")
    case True
    with wl' show ?thesis by (simp add: wf_list_Put)
  next
    case False
    from wl' have "\<forall>a\<in>set (tree_of h l'). a < length (items h)"
      by (auto simp: wf_list_def list_all_iff)
    then have "\<forall>a\<in>set (tree_of h l'). deref (snd (List_Put l v b h)) a = deref h a"
      by (simp add: Put_deref_old)
    moreover have "tree_of (snd (List_Put l v b h)) l' = tree_of h l'"
      using False by (rule Put_tree_other)
    ultimately show ?thesis using l'h by (intro wf_list_same[OF wl']) simp_all
  qed
qed

lemma wf_tree_Delete:
  "wf h \<Longrightarrow> wf (set_tree l (btree_Delete (deref h) k (tree_of h l)) h)"
  unfolding Delete_eq by (rule wf_set_tree_filter)

lemma deref_set_lst_other: "a \<noteq> i \<Longrightarrow> deref (set_lst i p h) a = deref h a"
  by (cases "i < length (items h)") (simp_all add: deref_set_lst set_lst_beyond)

lemma wf_set_lst:
  assumes "wf h" and "\<forall>l<length (lists h). i \<notin> set (tree_of h l)"
  shows "wf (set_lst i p h)"
  unfolding wf_iff
proof (intro allI impI)
  fix l assume "l < length (lists (set_lst i p h))"
  then have lh: "l < length (lists h)" by simp
  with assms(1) have wl: "wf_list h l" by (simp add: wf_iff)
  from assms(2) lh have "i \<notin> set (tree_of h l)" by simp
  then have "\<forall>a\<in>set (tree_of h l). deref (set_lst i p h) a = deref h a"
    by (auto intro: deref_set_lst_other)
  then show "wf_list (set_lst i p h) l"
    using lh by (intro wf_list_same[OF wl]) simp_all
qed

lemma wf_detach:
  assumes "wf h" and "lst (deref h i) = Some l"
  shows "wf (set_lst i None (set_tree l (btree_Delete (deref h) (deref h i) (tree_of h l)) h))"
proof -
  let ?h1 = "set_tree l (filter (\<lambda>b. ver (deref h b) \<noteq> ver (deref h i)) (tree_of h l)) h"
  have w1: "wf ?h1" by (rule wf_set_tree_filter[OF assms(1)])
  have "i \<notin> set (tree_of ?h1 l')" if l': "l' < length (lists ?h1)" for l'
  proof (cases "l' = l")
    case True
    with l' show ?thesis by simp
  next
    case False
    from l' have l'h: "l' < length (lists h)" by simp
    with assms(1) have "\<forall>a\<in>set (tree_of h l'). lst (deref h a) = Some l'"
      by (auto simp: wf_iff wf_list_def list_all_iff)
    with assms(2) False have "i \<notin> set (tree_of h l')" by auto
    moreover have "tree_of ?h1 l' = tree_of h l'"
      using False by (cases "l < length (lists h)") (simp_all add: set_tree_beyond)
    ultimately show ?thesis by simp
  qed
  then have "wf (set_lst i None ?h1)"
    by (intro wf_set_lst[OF w1]) simp
  then show ?thesis by (simp add: Delete_eq)
qed

lemma wf_Del: "wf h \<Longrightarrow> l < length (lists h) \<Longrightarrow> wf (snd (List_Del l v meth h))"
proof (cases "List_find h l v meth")
  case None
  assume "wf h"
  with None show ?thesis by (simp add: List_Del_def)
next
  case (Some i)
  assume w: "wf h" and l: "l < length (lists h)"
  then have "wf_list h l" by (simp add: wf_iff)
  with find_in_tree[OF Some] have "lst (deref h i) = Some l"
    by (auto simp: wf_list_def list_all_iff)
  from wf_detach[OF w this] Some show ?thesis by (simp add: List_Del_def)
qed

lemma wf_Item_Del: "wf h \<Longrightarrow> wf (snd (Item_Del i h))"
  by (cases "lst (deref h i)") (simp_all add: Item_Del_def wf_detach)

lemma wf_Item_Set: "wf h \<Longrightarrow> wf (snd (Item_Set i b h))"
  unfolding wf_iff
proof (intro allI impI)
  fix l assume w: "\<forall>l<length (lists h). wf_list h l" and "l < length (lists (snd (Item_Set i b h)))"
  then have lh: "l < length (lists h)" and wl: "wf_list h l"
    by (simp_all add: Item_Set_def set_val_def)
  have d: "ver (deref (set_val i b h) a) = ver (deref h a)"
    "lst (deref (set_val i b h) a) = lst (deref h a)" for a
    by (cases "i < length (items h)";
        simp add: set_val_def deref_def nth_list_update not_less list_update_beyond)+
  have t: "tree_of (set_val i b h) l = tree_of h l" "lists (set_val i b h) = lists h"
    "length (items (set_val i b h)) = length (items h)"
    by (simp_all add: set_val_def tree_of_def)
  from wl show "wf_list (snd (Item_Set i b h)) l"
    by (simp add: wf_list_def Item_Set_def d t)
qed

lemma wf_heap_empty: "wf heap_empty"
  by (simp add: wf_def heap_empty_def)

end
